theory Spec2Isabelle
  imports Main
begin

section \<open>The host's event target\<close>

text \<open>
  \<^verbatim>\<open>createAtom\<close> keeps its listeners in a DOM \<^verbatim>\<open>EventTarget\<close>, which the browser
  supplies. The three operations the source calls are modelled as the DOM standard
  defines them:
  \<^item> \<^verbatim>\<open>addEventListener(type, callback)\<close> appends a listener unless the list already
    holds one with the same type and the same callback (the capture flag is always
    the default in the source and is left out);
  \<^item> \<^verbatim>\<open>removeEventListener(type, callback)\<close> removes the listener with that type and
    callback, if there is one, and marks it removed;
  \<^item> \<^verbatim>\<open>dispatchEvent(event)\<close> clones the listener list and calls, in order, the
    callback of every listener of the clone that has the event's type and has not been
    removed meanwhile, passing it the event; it stops after a callback that has called
    \<^verbatim>\<open>stopImmediatePropagation()\<close> on the event. An exception thrown by a callback is
    reported by the host and does not leave \<^verbatim>\<open>dispatchEvent\<close>.

  A callback is a JavaScript function object; only its identity matters to the event
  target, so it is a number here. A listener is a struct of the host with its own
  identity, the token: a listener of the clone "has not been removed" exactly when it
  is still in the target's list.
\<close>

type_synonym callback = nat

record listener =
  ltype :: string
  lcallback :: callback
  ltoken :: nat

record event_target =
  listener_list :: "listener list"
  next_token :: nat

datatype event = Event string

fun event_type :: "event \<Rightarrow> string" where
  "event_type (Event ty) = ty"

definition new_EventTarget :: event_target where
  "new_EventTarget = \<lparr>listener_list = [], next_token = 0\<rparr>"

definition matches :: "string \<Rightarrow> callback \<Rightarrow> listener \<Rightarrow> bool" where
  "matches ty cb l = (ltype l = ty \<and> lcallback l = cb)"

fun remove_first :: "('a \<Rightarrow> bool) \<Rightarrow> 'a list \<Rightarrow> 'a list" where
  "remove_first P [] = []"
| "remove_first P (x # xs) = (if P x then xs else x # remove_first P xs)"

definition addEventListener :: "string \<Rightarrow> callback \<Rightarrow> event_target \<Rightarrow> event_target" where
  "addEventListener ty cb et =
     (if list_ex (matches ty cb) (listener_list et) then et
      else et\<lparr>listener_list :=
                 listener_list et @ [\<lparr>ltype = ty, lcallback = cb, ltoken = next_token et\<rparr>],
               next_token := Suc (next_token et)\<rparr>)"

definition removeEventListener :: "string \<Rightarrow> callback \<Rightarrow> event_target \<Rightarrow> event_target" where
  "removeEventListener ty cb et =
     et\<lparr>listener_list := remove_first (matches ty cb) (listener_list et)\<rparr>"

text \<open>
  The callbacks run inside the dispatch and may change anything they can reach,
  the target's own list included. The dispatch is therefore a function of the whole
  state \<open>'s\<close> the callbacks act on: \<open>tgt\<close> reads the event target out of it and
  \<open>call cb ev\<close> is what calling the function \<open>cb\<close> with the argument \<open>ev\<close> does:
  whether the call has set the event's stop immediate propagation flag, and the new
  state.
\<close>

fun inner_invoke ::
  "(callback \<Rightarrow> event \<Rightarrow> 's \<Rightarrow> bool \<times> 's) \<Rightarrow> ('s \<Rightarrow> event_target) \<Rightarrow> event \<Rightarrow>
   listener list \<Rightarrow> 's \<Rightarrow> 's"
where
  "inner_invoke call tgt ev [] s = s"
| "inner_invoke call tgt ev (l # ls) s =
     (if l \<in> set (listener_list (tgt s)) \<and> ltype l = event_type ev
      then (if fst (call (lcallback l) ev s) then snd (call (lcallback l) ev s)
            else inner_invoke call tgt ev ls (snd (call (lcallback l) ev s)))
      else inner_invoke call tgt ev ls s)"

definition dispatchEvent ::
  "(callback \<Rightarrow> event \<Rightarrow> 's \<Rightarrow> bool \<times> 's) \<Rightarrow> ('s \<Rightarrow> event_target) \<Rightarrow> event \<Rightarrow> 's \<Rightarrow> 's"
where
  "dispatchEvent call tgt ev s = inner_invoke call tgt ev (listener_list (tgt s)) s"

text \<open>
  The calls that a dispatch makes, in order: which callback, with which arguments. The
  function follows \<open>inner_invoke\<close> step by step.
\<close>

fun notified ::
  "(callback \<Rightarrow> event \<Rightarrow> 's \<Rightarrow> bool \<times> 's) \<Rightarrow> ('s \<Rightarrow> event_target) \<Rightarrow> event \<Rightarrow>
   listener list \<Rightarrow> 's \<Rightarrow> (callback \<times> event list) list"
where
  "notified call tgt ev [] s = []"
| "notified call tgt ev (l # ls) s =
     (if l \<in> set (listener_list (tgt s)) \<and> ltype l = event_type ev
      then (lcallback l, [ev]) #
           (if fst (call (lcallback l) ev s) then []
            else notified call tgt ev ls (snd (call (lcallback l) ev s)))
      else notified call tgt ev ls s)"

section \<open>The atom\<close>

text \<open>
  \<^verbatim>\<open>
  function createAtom<T>(value: T, events = new EventTarget()) {
    return {
      get() { return value; },
      set(newValue: T) {
        value = newValue;
        events.dispatchEvent(new Event("change"));
      },
      subscribe(cb: () => void) {
        events.addEventListener("change", cb);
        return () => events.removeEventListener("change", cb);
      },
    };
  }
  \<close>
  The closure's two variables are the fields of the record. The methods are defined on
  every extension of the record, so that they also run on a state that holds more than
  the atom. \<open>unsubscribe cb\<close> is the function that \<open>subscribe cb\<close> returns.
\<close>

record 'v atom =
  "value" :: 'v
  events :: event_target

definition createAtom :: "'v \<Rightarrow> event_target \<Rightarrow> 'v atom" where
  "createAtom v et = \<lparr>value = v, events = et\<rparr>"

definition get :: "('v, 'm) atom_scheme \<Rightarrow> 'v" where
  "get a = value a"

definition set_atom ::
  "(callback \<Rightarrow> event \<Rightarrow> ('v, 'm) atom_scheme \<Rightarrow> bool \<times> ('v, 'm) atom_scheme) \<Rightarrow>
   'v \<Rightarrow> ('v, 'm) atom_scheme \<Rightarrow> ('v, 'm) atom_scheme"
where
  "set_atom call newValue a =
     dispatchEvent call events (Event ''change'') (a\<lparr>value := newValue\<rparr>)"

definition subscribe :: "callback \<Rightarrow> ('v, 'm) atom_scheme \<Rightarrow> ('v, 'm) atom_scheme" where
  "subscribe cb a = a\<lparr>events := addEventListener ''change'' cb (events a)\<rparr>"

definition unsubscribe :: "callback \<Rightarrow> ('v, 'm) atom_scheme \<Rightarrow> ('v, 'm) atom_scheme" where
  "unsubscribe cb a = a\<lparr>events := removeEventListener ''change'' cb (events a)\<rparr>"

section \<open>Listeners that use the atom\<close>

text \<open>
  To say what listeners do and see, the state is the atom together with a trace. A
  call of \<^verbatim>\<open>set(v)\<close> appends \<open>SetCalled v\<close>, whoever makes it; a call of \<^verbatim>\<open>get()\<close> made by
  the callback \<open>c\<close> appends \<open>Got c v\<close>, with the value it returned.
  The body of a callback is the list of the calls it makes, in order: of the atom's
  \<^verbatim>\<open>get()\<close>, \<^verbatim>\<open>set(v)\<close> and \<^verbatim>\<open>subscribe(d)\<close>, of the unsubscribe function of \<open>d\<close>, and of
  \<^verbatim>\<open>stopImmediatePropagation()\<close> on the event it is passed.

  A listener that calls \<^verbatim>\<open>set\<close> starts a notification from inside the notification. The
  call stack is finite: \<open>invoke depth\<close> calls a callback with room for \<open>depth\<close> calls of
  listeners nested in one another. With no room left the callback is not run and the
  state is marked \<open>overflow\<close>, where the host would raise \<^verbatim>\<open>RangeError\<close>.
\<close>

datatype 'v obs = Got callback 'v | SetCalled 'v

record 'v world = "'v atom" +
  trace :: "'v obs list"
  overflow :: bool

datatype 'v cmd =
  CallGet | CallSet 'v | CallSubscribe callback | CallUnsubscribe callback
  | StopImmediatePropagation

fun run_cmd ::
  "(callback \<Rightarrow> event \<Rightarrow> 'v world \<Rightarrow> bool \<times> 'v world) \<Rightarrow> callback \<Rightarrow> 'v cmd \<Rightarrow> 'v world \<Rightarrow> 'v world"
where
  "run_cmd call c CallGet w = w\<lparr>trace := trace w @ [Got c (get w)]\<rparr>"
| "run_cmd call c (CallSet v) w = set_atom call v (w\<lparr>trace := trace w @ [SetCalled v]\<rparr>)"
| "run_cmd call c (CallSubscribe d) w = subscribe d w"
| "run_cmd call c (CallUnsubscribe d) w = unsubscribe d w"
| "run_cmd call c StopImmediatePropagation w = w"

primrec invoke ::
  "nat \<Rightarrow> (callback \<Rightarrow> 'v cmd list) \<Rightarrow> callback \<Rightarrow> event \<Rightarrow> 'v world \<Rightarrow> bool \<times> 'v world"
where
  "invoke 0 bodies c ev w = (False, w\<lparr>overflow := True\<rparr>)"
| "invoke (Suc depth) bodies c ev w =
     (StopImmediatePropagation \<in> set (bodies c),
      fold (run_cmd (invoke depth bodies) c) (bodies c) w)"

definition observed :: "'v atom \<Rightarrow> 'v world" where
  "observed a = \<lparr>value = value a, events = events a, trace = [], overflow = False\<rparr>"

text \<open>
  A sequence of calls of the atom's methods from outside.
\<close>

datatype 'v call = Set 'v | Get | Subscribe callback | Unsubscribe callback

fun api_call :: "nat \<Rightarrow> (callback \<Rightarrow> 'v cmd list) \<Rightarrow> 'v call \<Rightarrow> 'v world \<Rightarrow> 'v world" where
  "api_call depth bodies (Set v) w =
     set_atom (invoke depth bodies) v (w\<lparr>trace := trace w @ [SetCalled v]\<rparr>)"
| "api_call depth bodies Get w = w"
| "api_call depth bodies (Subscribe cb) w = subscribe cb w"
| "api_call depth bodies (Unsubscribe cb) w = unsubscribe cb w"

definition run_calls ::
  "nat \<Rightarrow> (callback \<Rightarrow> 'v cmd list) \<Rightarrow> 'v call list \<Rightarrow> 'v world \<Rightarrow> 'v world"
where
  "run_calls depth bodies cs w = fold (api_call depth bodies) cs w"

text \<open>
  What has been recorded between two states.
\<close>

definition since :: "'v world \<Rightarrow> 'v world \<Rightarrow> 'v obs list" where
  "since w w' = drop (length (trace w)) (trace w')"

text \<open>
  The value after the calls of \<^verbatim>\<open>set\<close> that a trace records, starting from \<open>v\<close>; and
  whether every \<^verbatim>\<open>get()\<close> that the trace records returned the argument of the latest
  call of \<^verbatim>\<open>set\<close> before it (\<open>v\<close>, when there is none).
\<close>

fun replay :: "'v \<Rightarrow> 'v obs list \<Rightarrow> 'v" where
  "replay v [] = v"
| "replay v (SetCalled x # t) = replay x t"
| "replay v (Got c x # t) = replay v t"

fun gets_current :: "'v \<Rightarrow> 'v obs list \<Rightarrow> bool" where
  "gets_current v [] = True"
| "gets_current v (SetCalled x # t) = gets_current x t"
| "gets_current v (Got c x # t) = (x = v \<and> gets_current v t)"

text \<open>
  The values that the callback \<open>c\<close> got from \<^verbatim>\<open>get()\<close>, in order.
\<close>

fun gots :: "callback \<Rightarrow> 'v obs list \<Rightarrow> 'v list" where
  "gots c [] = []"
| "gots c (SetCalled x # t) = gots c t"
| "gots c (Got d v # t) = (if d = c then v # gots c t else gots c t)"

text \<open>
  The calls that the dispatch of one call \<^verbatim>\<open>set(v)\<close> makes (its notification pass), and
  what the whole call appends to the trace. A notification that a listener starts by
  calling \<^verbatim>\<open>set\<close> itself is a pass of that call, not of this one.
\<close>

definition pass ::
  "nat \<Rightarrow> (callback \<Rightarrow> 'v cmd list) \<Rightarrow> 'v \<Rightarrow> 'v world \<Rightarrow> (callback \<times> event list) list"
where
  "pass depth bodies v w =
     notified (invoke depth bodies) events (Event ''change'') (listener_list (events w))
       (w\<lparr>value := v\<rparr>)"

definition pass_trace :: "nat \<Rightarrow> (callback \<Rightarrow> 'v cmd list) \<Rightarrow> 'v \<Rightarrow> 'v world \<Rightarrow> 'v obs list" where
  "pass_trace depth bodies v w = since w (set_atom (invoke depth bodies) v w)"

text \<open>
  The arguments of the calls of the callback \<open>c\<close> among the calls of a pass.
\<close>

definition calls_of :: "callback \<Rightarrow> (callback \<times> event list) list \<Rightarrow> event list list" where
  "calls_of c ps = map snd (filter (\<lambda>p. fst p = c) ps)"

definition registered :: "callback \<Rightarrow> ('v, 'm) atom_scheme \<Rightarrow> bool" where
  "registered c a = list_ex (matches ''change'' c) (listener_list (events a))"

text \<open>
  The host never holds two listeners with the same type and callback: the list of a
  new target is empty and \<open>addEventListener\<close> keeps it so.
\<close>

definition key :: "listener \<Rightarrow> string \<times> callback" where
  "key l = (ltype l, lcallback l)"

definition wf_target :: "event_target \<Rightarrow> bool" where
  "wf_target et = distinct (map key (listener_list et))"

definition calls_set :: "'v cmd \<Rightarrow> bool" where
  "calls_set x = (case x of CallSet v \<Rightarrow> True | _ \<Rightarrow> False)"

text \<open>
  No listener that a call of \<^verbatim>\<open>set\<close> on \<open>a\<close> notifies calls \<^verbatim>\<open>set\<close> again.
\<close>

definition no_reentry :: "(callback \<Rightarrow> 'v cmd list) \<Rightarrow> ('v, 'm) atom_scheme \<Rightarrow> bool" where
  "no_reentry bodies a =
     list_all (\<lambda>k. ltype k = ''change'' \<longrightarrow> \<not> list_ex calls_set (bodies (lcallback k)))
       (listener_list (events a))"

text \<open>
  No listener that a call of \<^verbatim>\<open>set\<close> on \<open>a\<close> notifies, other than \<open>c\<close> itself, calls the
  unsubscribe function of \<open>c\<close>, stops the propagation of the event or calls \<^verbatim>\<open>set\<close>.
\<close>

definition undisturbed ::
  "(callback \<Rightarrow> 'v cmd list) \<Rightarrow> callback \<Rightarrow> ('v, 'm) atom_scheme \<Rightarrow> bool"
where
  "undisturbed bodies c a =
     list_all (\<lambda>k. ltype k = ''change'' \<and> lcallback k \<noteq> c \<longrightarrow>
                    CallUnsubscribe c \<notin> set (bodies (lcallback k)) \<and>
                    StopImmediatePropagation \<notin> set (bodies (lcallback k)) \<and>
                    \<not> list_ex calls_set (bodies (lcallback k)))
       (listener_list (events a))"

text \<open>
  Relations between the state before and after a piece of the run: the value follows
  the recorded calls of \<^verbatim>\<open>set\<close> and every recorded \<^verbatim>\<open>get()\<close> is current; the listener
  list keeps the host's invariant; no overflow is added; the value is unchanged, or
  unchanged with only its own value being got.
\<close>

definition follows :: "'v world \<Rightarrow> 'v world \<Rightarrow> bool" where
  "follows w w' =
     (\<exists>t. trace w' = trace w @ t \<and> value w' = replay (value w) t \<and> gets_current (value w) t)"

definition keeps_wf :: "('v, 'm) atom_scheme \<Rightarrow> ('v, 'm) atom_scheme \<Rightarrow> bool" where
  "keeps_wf s s' = (wf_target (events s) \<longrightarrow> wf_target (events s'))"


definition same_value :: "'v world \<Rightarrow> 'v world \<Rightarrow> bool" where
  "same_value s s' = (value s' = value s)"

definition only_gets :: "'v world \<Rightarrow> 'v world \<Rightarrow> bool" where
  "only_gets s s' =
     (value s' = value s \<and> (\<exists>t. trace s' = trace s @ t \<and> (\<forall>c. set (gots c t) \<subseteq> {value s})))"

section \<open>The shim and the host's hooks\<close>

text \<open>
  \<^verbatim>\<open>
  function useSyncExternalStoreShim<T>(
    subscribe: (cb: () => void) => () => void,
    getSnapshot: () => T,
  ): T {
    let [snapshot, setSnapshot] = useState(getSnapshot);
    useEffect(() => subscribe(() => setSnapshot(getSnapshot)), [subscribe, getSnapshot]);
    return snapshot;
  }
  \<close>
  The shim is built from React's \<^verbatim>\<open>useState\<close> and \<^verbatim>\<open>useEffect\<close>, which are not code of
  this repository. They are modelled after their documented contract, for one element
  that evaluates the shim:
  \<^item> \<^verbatim>\<open>useState(init)\<close>, with a function \<open>init\<close>: on the first evaluation the state is
    what \<open>init\<close> returns, on later ones it is the stored state;
  \<^item> the set function, called with a function: the function's result replaces the state
    and a re-render of the element is requested, unless the result is identical to the
    current state (\<^verbatim>\<open>Object.is\<close>), in which case nothing happens; it does nothing on an
    element that is not mounted;
  \<^item> \<^verbatim>\<open>useEffect(effect, deps)\<close>: after the render is committed, when no effect has run
    yet or one of \<open>deps\<close> is not identical to its value at the effect that ran last,
    the cleanup function of that effect is called and then \<open>effect\<close>, whose result
    is the new cleanup function; at unmount the cleanup function is called.

  The state is the atom together with the hook's cells of the element. A function
  object is known by its identity; as in the source's only call, both arguments are
  the \<^verbatim>\<open>subscribe\<close> and \<^verbatim>\<open>get\<close> of the atom, possibly wrapped anew, so that only their
  identity changes between renders. Every run of the effect creates a new function
  object \<^verbatim>\<open>() => setSnapshot(getSnapshot)\<close>; \<open>closures\<close> lists them. Equality of values
  stands for \<^verbatim>\<open>Object.is\<close>. \<open>notifications\<close> counts the calls of these callbacks and
  \<open>render_requests\<close> the re-renders that the set function has requested.
\<close>

type_synonym fn_id = nat

record 'v page = "'v atom" +
  snapshot :: "'v option"
  deps :: "(fn_id \<times> fn_id) option"
  cleanup :: "callback option"
  scheduled :: "(fn_id \<times> fn_id) option"
  closures :: "callback list"
  next_closure :: callback
  notifications :: nat
  render_requests :: nat

definition useState :: "('v page \<Rightarrow> 'v) \<Rightarrow> 'v page \<Rightarrow> 'v \<times> 'v page" where
  "useState initialState s =
     (case snapshot s of
        None \<Rightarrow> (initialState s, s\<lparr>snapshot := Some (initialState s)\<rparr>)
      | Some x \<Rightarrow> (x, s))"

definition setSnapshot :: "('v page \<Rightarrow> 'v) \<Rightarrow> 'v page \<Rightarrow> 'v page" where
  "setSnapshot updater s =
     (case snapshot s of
        None \<Rightarrow> s
      | Some x \<Rightarrow>
          (if updater s = x then s
           else s\<lparr>snapshot := Some (updater s), render_requests := Suc (render_requests s)\<rparr>))"

definition useEffect :: "fn_id \<times> fn_id \<Rightarrow> 'v page \<Rightarrow> 'v page" where
  "useEffect ds s = s\<lparr>scheduled := Some ds\<rparr>"

definition useSyncExternalStoreShim :: "fn_id \<times> fn_id \<Rightarrow> 'v page \<Rightarrow> 'v \<times> 'v page" where
  "useSyncExternalStoreShim ids s =
     (let (snap, s1) = useState get s; s2 = useEffect ids s1 in (snap, s2))"

text \<open>
  The callback that the effect subscribes: \<^verbatim>\<open>() => setSnapshot(getSnapshot)\<close>. Any other
  callback registered on the atom belongs to someone else and leaves the element, the
  atom and the event alone.
\<close>

definition shim_listener :: "callback \<Rightarrow> event \<Rightarrow> 'v page \<Rightarrow> bool \<times> 'v page" where
  "shim_listener c ev s =
     (False,
      if c \<in> set (closures s)
      then setSnapshot get (s\<lparr>notifications := Suc (notifications s)\<rparr>) else s)"

text \<open>
  What the host does with the effect when a render is committed, and at unmount. The
  effect is \<^verbatim>\<open>() => subscribe(cb)\<close> with a new callback \<open>cb\<close>; its cleanup function is the
  unsubscribe function that \<^verbatim>\<open>subscribe\<close> returns.
\<close>

definition run_cleanup :: "'v page \<Rightarrow> 'v page" where
  "run_cleanup s =
     (case cleanup s of None \<Rightarrow> s | Some cb \<Rightarrow> (unsubscribe cb s)\<lparr>cleanup := None\<rparr>)"

definition run_effect :: "fn_id \<times> fn_id \<Rightarrow> 'v page \<Rightarrow> 'v page" where
  "run_effect ds s =
     (let cb = next_closure s
      in (subscribe cb (s\<lparr>closures := cb # closures s, next_closure := Suc cb\<rparr>))
           \<lparr>cleanup := Some cb, deps := Some ds\<rparr>)"

definition commit :: "'v page \<Rightarrow> 'v page" where
  "commit s =
     (case scheduled s of
        None \<Rightarrow> s
      | Some ds \<Rightarrow>
          (if deps s = Some ds then s\<lparr>scheduled := None\<rparr>
           else (run_effect ds (run_cleanup s))\<lparr>scheduled := None\<rparr>))"

definition unmount :: "'v page \<Rightarrow> 'v page" where
  "unmount s = (run_cleanup s)\<lparr>snapshot := None, deps := None, scheduled := None\<rparr>"

text \<open>
  An element that has not been rendered yet, on a given atom. A new function object is
  different from every callback already registered.
\<close>

fun fresh_callback :: "listener list \<Rightarrow> callback" where
  "fresh_callback [] = 0"
| "fresh_callback (l # ls) = max (Suc (lcallback l)) (fresh_callback ls)"

definition new_page :: "'v atom \<Rightarrow> 'v page" where
  "new_page a =
     \<lparr>value = value a, events = events a, snapshot = None, deps = None, cleanup = None,
      scheduled = None, closures = [], next_closure = fresh_callback (listener_list (events a)),
      notifications = 0, render_requests = 0\<rparr>"

text \<open>
  What can happen to the element and the atom: the element is rendered with the
  function objects \<open>f\<close> and \<open>g\<close> as the shim's arguments, a render is committed,
  \<^verbatim>\<open>set\<close> is called on the atom, the element is unmounted.
\<close>

datatype 'v lifecycle = Render fn_id fn_id | Commit | AtomSet 'v | Unmount

fun step :: "'v lifecycle \<Rightarrow> 'v page \<Rightarrow> 'v page" where
  "step (Render f g) s = snd (useSyncExternalStoreShim (f, g) s)"
| "step Commit s = commit s"
| "step (AtomSet v) s = set_atom shim_listener v s"
| "step Unmount s = unmount s"

definition run_steps :: "'v lifecycle list \<Rightarrow> 'v page \<Rightarrow> 'v page" where
  "run_steps steps s = fold step steps s"

text \<open>
  The element after its first render has been committed.
\<close>

definition mounted :: "fn_id \<times> fn_id \<Rightarrow> 'v atom \<Rightarrow> 'v page" where
  "mounted ids a = commit (snd (useSyncExternalStoreShim ids (new_page a)))"

text \<open>
  The listeners on the atom that the shim's effect has registered.
\<close>

definition active_subscriptions :: "'v page \<Rightarrow> listener list" where
  "active_subscriptions s =
     filter (\<lambda>l. ltype l = ''change'' \<and> lcallback l \<in> set (closures s)) (listener_list (events s))"

text \<open>
  Modelled from the spec: the native adapter of section 4.3, which hands \<^verbatim>\<open>subscribe\<close> and
  \<^verbatim>\<open>get\<close> to the host's \<^verbatim>\<open>useSyncExternalStore\<close> ("call \<open>get\<close> to obtain the snapshot to
  render; [...] when notified, re-invoke \<open>get\<close> and re-render if the snapshot differs").
  The snapshot it renders is what \<^verbatim>\<open>get\<close> returns.
\<close>

definition useSyncExternalStore_native :: "fn_id \<times> fn_id \<Rightarrow> ('v, 'm) atom_scheme \<Rightarrow> 'v" where
  "useSyncExternalStore_native ids s = get s"

text \<open>
  The shim's effect is subscribed: its cleanup function belongs to a callback that the
  effect created and that is registered on the atom. The element is in sync when,
  moreover, its state is the atom's value.
\<close>

definition subscribed :: "'v page \<Rightarrow> bool" where
  "subscribed s =
     (case cleanup s of None \<Rightarrow> False
      | Some cb \<Rightarrow> cb \<in> set (closures s) \<and> registered cb s)"


text \<open>
  What every reachable state of the element satisfies: the host's invariant on the
  listener list, function identities below the next new one, and every listener of
  the shim being the one its cleanup function removes.
\<close>

definition page_inv :: "'v page \<Rightarrow> bool" where
  "page_inv s =
     (wf_target (events s) \<and>
      list_all (\<lambda>l. lcallback l < next_closure s) (listener_list (events s)) \<and>
      list_all (\<lambda>c. c < next_closure s) (closures s) \<and>
      list_all (\<lambda>l. cleanup s = Some (lcallback l)) (active_subscriptions s))"

text \<open>
  The listeners that a dispatch of \<open>ev\<close> in state \<open>s\<close> hands to the shim's callback.
\<close>

definition notified_by :: "event \<Rightarrow> 'v page \<Rightarrow> listener \<Rightarrow> bool" where
  "notified_by ev s l =
     (l \<in> set (listener_list (events s)) \<and> ltype l = event_type ev \<and>
      lcallback l \<in> set (closures s))"

section \<open>The delayed value and the host's timers\<close>

text \<open>
  \<^verbatim>\<open>
  function delayed<T>(value: T) {
    return new Promise<T>((resolve) => setTimeout(resolve, 1000, value));
  }
  \<close>
  Promises and timers are the host's. A promise is pending, fulfilled with a value or
  rejected with a reason; the host's loop holds the promises made so far (a promise is
  known by its index), the timers that have not fired yet and its clock, in
  milliseconds.
  \<^item> \<^verbatim>\<open>new Promise(executor)\<close> makes a pending promise and calls \<open>executor\<close> with the
    promise's resolve function;
  \<^item> \<^verbatim>\<open>setTimeout(handler, delay, arg)\<close> queues a timer that is due \<open>delay\<close> milliseconds
    from now; the only handlers in this program are resolve functions, so a timer
    holds the promise its handler resolves;
  \<^item> a resolve function fulfils its promise with the value it is given (a plain value,
    not a promise or thenable) if the promise is still pending, and does nothing
    otherwise;
  \<^item> \<open>elapse d\<close>: \<open>d\<close> milliseconds pass, and the loop fires each timer that has become
    due, once, removing it.
\<close>

datatype 'a promise_state = Pending | Fulfilled 'a | Rejected string

record 'a timer =
  due :: nat
  target :: nat
  arg :: 'a

record 'a loop =
  now :: nat
  promises :: "'a promise_state list"
  timers :: "'a timer list"

definition new_loop :: "'a loop" where
  "new_loop = \<lparr>now = 0, promises = [], timers = []\<rparr>"

definition resolve :: "nat \<Rightarrow> 'a \<Rightarrow> 'a loop \<Rightarrow> 'a loop" where
  "resolve p v L =
     (if p < length (promises L) \<and> promises L ! p = Pending
      then L\<lparr>promises := (promises L)[p := Fulfilled v]\<rparr> else L)"

definition setTimeout :: "nat \<Rightarrow> nat \<Rightarrow> 'a \<Rightarrow> 'a loop \<Rightarrow> 'a loop" where
  "setTimeout p delay v L = L\<lparr>timers := timers L @ [\<lparr>due = now L + delay, target = p, arg = v\<rparr>]\<rparr>"

definition new_Promise :: "(nat \<Rightarrow> 'a loop \<Rightarrow> 'a loop) \<Rightarrow> 'a loop \<Rightarrow> nat \<times> 'a loop" where
  "new_Promise executor L =
     (let p = length (promises L)
      in (p, executor p (L\<lparr>promises := promises L @ [Pending]\<rparr>)))"

definition delayed :: "'a \<Rightarrow> 'a loop \<Rightarrow> nat \<times> 'a loop" where
  "delayed v L = new_Promise (\<lambda>resolve_of. setTimeout resolve_of 1000 v) L"

text \<open>
  Modelled from the spec: the producer of section 4.2,
  "\<^verbatim>\<open>produce(value: T, delayMs: number = 1000)\<close> returns a pending computation that resolves
  to \<open>value\<close> after \<open>delayMs\<close> elapses, measured from call time", to compare \<open>delayed\<close>
  with.
\<close>

definition spec_produce :: "'a \<Rightarrow> nat \<Rightarrow> 'a loop \<Rightarrow> nat \<times> 'a loop" where
  "spec_produce v delayMs L = new_Promise (\<lambda>resolve_of. setTimeout resolve_of delayMs v) L"

definition fire :: "'a timer \<Rightarrow> 'a loop \<Rightarrow> 'a loop" where
  "fire t L = resolve (target t) (arg t) L"

definition elapse :: "nat \<Rightarrow> 'a loop \<Rightarrow> 'a loop" where
  "elapse d L =
     (let t = now L + d
      in fold fire (filter (\<lambda>x. due x \<le> t) (timers L))
           (L\<lparr>now := t, timers := filter (\<lambda>x. \<not> due x \<le> t) (timers L)\<rparr>))"

definition state_of :: "nat \<Rightarrow> 'a loop \<Rightarrow> 'a promise_state" where
  "state_of p L = promises L ! p"

text \<open>
  What happens on the loop after a promise was made: time passes, or the program calls
  \<^verbatim>\<open>delayed\<close> again. \<open>elapsed\<close> is the time that has passed in all.
\<close>

datatype 'a activity = Elapse nat | Delayed 'a

fun tick :: "'a activity \<Rightarrow> 'a loop \<Rightarrow> 'a loop" where
  "tick (Elapse d) L = elapse d L"
| "tick (Delayed v) L = snd (delayed v L)"

fun elapsed :: "'a activity list \<Rightarrow> nat" where
  "elapsed [] = 0"
| "elapsed (Elapse d # ts) = d + elapsed ts"
| "elapsed (Delayed v # ts) = elapsed ts"

text \<open>
  Every timer resolves a promise that exists.
\<close>

definition wf_loop :: "'a loop \<Rightarrow> bool" where
  "wf_loop L = list_all (\<lambda>x. target x < length (promises L)) (timers L)"

text \<open>
  The promise \<open>p\<close>, made at time \<open>t0\<close> by \<^verbatim>\<open>delayed v\<close>, after \<open>e\<close> milliseconds: before
  1000 it is pending and its timer is queued, from 1000 on it is fulfilled with \<open>v\<close>.
\<close>

definition tracks :: "nat \<Rightarrow> 'a \<Rightarrow> nat \<Rightarrow> nat \<Rightarrow> 'a loop \<Rightarrow> bool" where
  "tracks p v t0 e L =
     (p < length (promises L) \<and> now L = t0 + e \<and>
      (if e < 1000
       then promises L ! p = Pending \<and>
            (\<exists>x\<in>set (timers L). target x = p) \<and>
            (\<forall>x\<in>set (timers L). target x = p \<longrightarrow> due x = t0 + 1000 \<and> arg x = v)
       else promises L ! p = Fulfilled v))"

section \<open>A dispatch inherits what every call guarantees\<close>

lemma inner_invoke_rel:
  assumes refl: "\<And>s. R s s"
    and trans: "\<And>a b c. R a b \<Longrightarrow> R b c \<Longrightarrow> R a c"
    and step: "\<And>l s. l \<in> set ls \<Longrightarrow> ltype l = event_type ev \<Longrightarrow> R s (snd (call (lcallback l) ev s))"
  shows "R s (inner_invoke call tgt ev ls s)"
  using step
proof (induction ls arbitrary: s)
  case Nil
  show ?case by (simp add: refl)
next
  case (Cons l ls)
  have rest: "R s' (inner_invoke call tgt ev ls s')" for s'
    using Cons.prems by (intro Cons.IH) simp_all
  show ?case
  proof (cases "l \<in> set (listener_list (tgt s)) \<and> ltype l = event_type ev")
    case False
    then show ?thesis using rest [of s] by auto
  next
    case True
    then have one: "R s (snd (call (lcallback l) ev s))" using Cons.prems by simp
    have "R s (inner_invoke call tgt ev ls (snd (call (lcallback l) ev s)))"
      using one rest by (rule trans)
    then show ?thesis using True one by simp
  qed
qed

section \<open>The value follows the calls of set\<close>

lemma replay_append: "replay v (s @ t) = replay (replay v s) t"
  by (induction v s rule: replay.induct) simp_all

lemma gets_current_append:
  "gets_current v (s @ t) \<longleftrightarrow> gets_current v s \<and> gets_current (replay v s) t"
  by (induction v s rule: gets_current.induct) auto

lemma follows_refl: "follows w w"
  by (simp add: follows_def)

lemma follows_trans: "follows a b \<Longrightarrow> follows b c \<Longrightarrow> follows a c"
  unfolding follows_def
proof (elim exE conjE)
  fix s t
  assume "trace b = trace a @ s" "value b = replay (value a) s" "gets_current (value a) s"
    "trace c = trace b @ t" "value c = replay (value b) t" "gets_current (value b) t"
  then have "trace c = trace a @ (s @ t) \<and> value c = replay (value a) (s @ t) \<and>
      gets_current (value a) (s @ t)"
    by (simp add: replay_append gets_current_append)
  then show "\<exists>t. trace c = trace a @ t \<and> value c = replay (value a) t \<and> gets_current (value a) t"
    by blast
qed

lemma follows_after_assignment:
  assumes "\<And>c s. follows s (snd (call c ev s))"
  shows "\<exists>t. trace (inner_invoke call events ev ls (w\<lparr>value := v\<rparr>)) = trace w @ t \<and>
             value (inner_invoke call events ev ls (w\<lparr>value := v\<rparr>)) = replay v t \<and>
             gets_current v t"
proof -
  have "follows (w\<lparr>value := v\<rparr>) (inner_invoke call events ev ls (w\<lparr>value := v\<rparr>))"
    by (rule inner_invoke_rel [where R = follows and call = call])
       (rule follows_refl, erule follows_trans, assumption, rule assms)
  then show ?thesis by (simp add: follows_def)
qed

lemma follows_logged_set:
  assumes "\<And>c s. follows s (snd (call c (Event ''change'') s))"
  shows "follows w (set_atom call v (w\<lparr>trace := trace w @ [SetCalled v]\<rparr>))"
proof -
  let ?w = "w\<lparr>trace := trace w @ [SetCalled v]\<rparr>"
  obtain t where t: "trace (set_atom call v ?w) = trace ?w @ t"
      "value (set_atom call v ?w) = replay v t" "gets_current v t"
    using follows_after_assignment
      [where call = call and ev = "Event ''change''" and ls = "listener_list (events ?w)"
         and w = ?w and v = v, OF assms]
    by (auto simp: set_atom_def dispatchEvent_def)
  then have "trace (set_atom call v ?w) = trace w @ (SetCalled v # t) \<and>
      value (set_atom call v ?w) = replay (value w) (SetCalled v # t) \<and>
      gets_current (value w) (SetCalled v # t)"
    by simp
  then show ?thesis unfolding follows_def by blast
qed

lemma follows_run_cmd:
  assumes "\<And>c s. follows s (snd (call c (Event ''change'') s))"
  shows "follows w (run_cmd call c x w)"
proof (cases x)
  case CallGet
  have "trace (run_cmd call c CallGet w) = trace w @ [Got c (value w)] \<and>
      value (run_cmd call c CallGet w) = replay (value w) [Got c (value w)] \<and>
      gets_current (value w) [Got c (value w)]"
    by (simp add: get_def)
  then show ?thesis unfolding follows_def CallGet by blast
next
  case (CallSet v)
  then show ?thesis
    using follows_logged_set [where call = call and w = w and v = v, OF assms] by simp
next
  case (CallSubscribe d)
  then show ?thesis by (simp add: follows_def subscribe_def)
next
  case (CallUnsubscribe d)
  then show ?thesis by (simp add: follows_def unsubscribe_def)
next
  case StopImmediatePropagation
  then show ?thesis by (simp add: follows_refl)
qed

lemma follows_fold:
  assumes "\<And>c s. follows s (snd (call c (Event ''change'') s))"
  shows "follows w (fold (run_cmd call c) xs w)"
proof (induction xs arbitrary: w)
  case Nil
  show ?case by (simp add: follows_refl)
next
  case (Cons x xs)
  have "follows w (run_cmd call c x w)"
    by (rule follows_run_cmd [where call = call]) (rule assms)
  then show ?case using Cons.IH [of "run_cmd call c x w"] by (auto intro: follows_trans)
qed

lemma follows_invoke: "follows w (snd (invoke depth B c ev w))"
proof (induction depth arbitrary: c ev w)
  case 0
  show ?case by (simp add: follows_def)
next
  case (Suc depth)
  have "follows w (fold (run_cmd (invoke depth B) c) (B c) w)"
    by (rule follows_fold [where call = "invoke depth B"]) (rule Suc.IH)
  then show ?case by simp
qed

lemma follows_api_call: "follows w (api_call depth B x w)"
proof (cases x)
  case (Set v)
  have "follows w (set_atom (invoke depth B) v (w\<lparr>trace := trace w @ [SetCalled v]\<rparr>))"
    by (rule follows_logged_set [where call = "invoke depth B"]) (rule follows_invoke)
  with Set show ?thesis by simp
qed (simp_all add: follows_def subscribe_def unsubscribe_def)

lemma follows_run_calls: "follows w (run_calls depth B cs w)"
  unfolding run_calls_def
proof (induction cs arbitrary: w)
  case Nil
  show ?case by (simp add: follows_refl)
next
  case (Cons x cs)
  show ?case
    using follows_api_call [where w = w and depth = depth and B = B and x = x]
      Cons.IH [of "api_call depth B x w"]
    by (auto intro: follows_trans)
qed

lemma follows_since: "follows w w' \<Longrightarrow> trace w' = trace w @ since w w'"
  by (auto simp: follows_def since_def)

lemma pass_trace_current:
  "trace (set_atom (invoke depth B) v w) = trace w @ pass_trace depth B v w \<and>
   get (set_atom (invoke depth B) v w) = replay v (pass_trace depth B v w) \<and>
   gets_current v (pass_trace depth B v w)"
proof -
  obtain t where "trace (set_atom (invoke depth B) v w) = trace w @ t"
      "value (set_atom (invoke depth B) v w) = replay v t" "gets_current v t"
    using follows_after_assignment
      [where call = "invoke depth B" and ev = "Event ''change''"
         and ls = "listener_list (events w)" and w = w and v = v, OF follows_invoke]
    by (auto simp: set_atom_def dispatchEvent_def)
  then show ?thesis by (simp add: pass_trace_def since_def get_def)
qed

section \<open>The listener list\<close>

lemma set_remove_first_subset: "set (remove_first P xs) \<subseteq> set xs"
  by (induction xs) auto

lemma remove_first_keeps: "x \<in> set xs \<Longrightarrow> \<not> P x \<Longrightarrow> x \<in> set (remove_first P xs)"
  by (induction xs) auto

lemma remove_first_id: "\<not> list_ex P xs \<Longrightarrow> remove_first P xs = xs"
  by (induction xs) auto

lemma distinct_remove_first: "distinct (map f xs) \<Longrightarrow> distinct (map f (remove_first P xs))"
proof (induction xs)
  case Nil
  show ?case by simp
next
  case (Cons x xs)
  have "f x \<notin> f ` set (remove_first P xs)"
    using Cons.prems set_remove_first_subset [of P xs] by auto
  with Cons show ?case by simp
qed

lemma matches_key: "matches ty cb l \<longleftrightarrow> key l = (ty, cb)"
  by (auto simp: matches_def key_def)

lemma remove_first_matches_gone:
  "distinct (map key xs) \<Longrightarrow> \<not> list_ex (matches ty cb) (remove_first (matches ty cb) xs)"
proof (induction xs)
  case Nil
  show ?case by simp
next
  case (Cons x xs)
  show ?case
  proof (cases "matches ty cb x")
    case True
    then have "key x = (ty, cb)" by (simp add: matches_key)
    with Cons.prems have "\<forall>y\<in>set xs. \<not> matches ty cb y"
      by (force simp: matches_key)
    with True show ?thesis by (simp add: list_ex_iff)
  next
    case False
    with Cons show ?thesis by simp
  qed
qed

lemma wf_addEventListener: "wf_target et \<Longrightarrow> wf_target (addEventListener ty cb et)"
  by (auto simp: wf_target_def addEventListener_def list_ex_iff matches_def key_def)

lemma wf_removeEventListener: "wf_target et \<Longrightarrow> wf_target (removeEventListener ty cb et)"
  by (simp add: wf_target_def removeEventListener_def distinct_remove_first)

lemma wf_new_EventTarget: "wf_target new_EventTarget"
  by (simp add: wf_target_def new_EventTarget_def)

lemma keeps_wf_refl: "keeps_wf s s"
  by (simp add: keeps_wf_def)

lemma keeps_wf_trans: "keeps_wf a b \<Longrightarrow> keeps_wf b c \<Longrightarrow> keeps_wf a c"
  by (simp add: keeps_wf_def)

lemma keeps_wf_set_atom:
  assumes "\<And>c s. keeps_wf s (snd (call c (Event ''change'') s))"
  shows "keeps_wf w (set_atom call v w)"
proof -
  have "keeps_wf (w\<lparr>value := v\<rparr>)
      (inner_invoke call events (Event ''change'') (listener_list (events w)) (w\<lparr>value := v\<rparr>))"
    by (rule inner_invoke_rel [where R = keeps_wf and call = call])
       (rule keeps_wf_refl, erule keeps_wf_trans, assumption, rule assms)
  then show ?thesis by (simp add: keeps_wf_def set_atom_def dispatchEvent_def)
qed

lemma keeps_wf_run_cmd:
  assumes "\<And>c s. keeps_wf s (snd (call c (Event ''change'') s))"
  shows "keeps_wf w (run_cmd call c x w)"
proof (cases x)
  case (CallSet v)
  have "keeps_wf (w\<lparr>trace := trace w @ [SetCalled v]\<rparr>)
      (set_atom call v (w\<lparr>trace := trace w @ [SetCalled v]\<rparr>))"
    by (rule keeps_wf_set_atom [where call = call]) (rule assms)
  with CallSet show ?thesis by (simp add: keeps_wf_def)
qed (simp_all add: keeps_wf_def subscribe_def unsubscribe_def wf_addEventListener
      wf_removeEventListener)

lemma keeps_wf_fold:
  assumes "\<And>c s. keeps_wf s (snd (call c (Event ''change'') s))"
  shows "keeps_wf w (fold (run_cmd call c) xs w)"
proof (induction xs arbitrary: w)
  case Nil
  show ?case by (simp add: keeps_wf_refl)
next
  case (Cons x xs)
  have "keeps_wf w (run_cmd call c x w)"
    by (rule keeps_wf_run_cmd [where call = call]) (rule assms)
  then show ?case using Cons.IH [of "run_cmd call c x w"] by (auto intro: keeps_wf_trans)
qed

lemma keeps_wf_invoke: "keeps_wf w (snd (invoke depth B c ev w))"
proof (induction depth arbitrary: c ev w)
  case 0
  show ?case by (simp add: keeps_wf_def)
next
  case (Suc depth)
  have "keeps_wf w (fold (run_cmd (invoke depth B) c) (B c) w)"
    by (rule keeps_wf_fold [where call = "invoke depth B"]) (rule Suc.IH)
  then show ?case by simp
qed

lemma keeps_wf_api_call: "keeps_wf w (api_call depth B x w)"
proof (cases x)
  case (Set v)
  have "keeps_wf (w\<lparr>trace := trace w @ [SetCalled v]\<rparr>)
      (set_atom (invoke depth B) v (w\<lparr>trace := trace w @ [SetCalled v]\<rparr>))"
    by (rule keeps_wf_set_atom [where call = "invoke depth B"]) (rule keeps_wf_invoke)
  with Set show ?thesis by (simp add: keeps_wf_def)
qed (simp_all add: keeps_wf_def subscribe_def unsubscribe_def wf_addEventListener
      wf_removeEventListener)

lemma wf_run_calls:
  "wf_target (events w) \<Longrightarrow> wf_target (events (run_calls depth B cs w))"
  unfolding run_calls_def
proof (induction cs arbitrary: w)
  case Nil
  then show ?case by simp
next
  case (Cons x cs)
  have "wf_target (events (api_call depth B x w))"
    using keeps_wf_api_call [where w = w and depth = depth and B = B and x = x] Cons.prems
    by (simp add: keeps_wf_def)
  then show ?case using Cons.IH by simp
qed

lemma wf_createAtom:
  "wf_target (events (run_calls depth B cs (observed (createAtom v new_EventTarget))))"
  by (rule wf_run_calls) (simp add: observed_def createAtom_def wf_new_EventTarget)

section \<open>Who is called in a pass\<close>

lemma notified_from_snapshot:
  "p \<in> set (notified call tgt ev ls s) \<Longrightarrow>
   snd p = [ev] \<and> (\<exists>l\<in>set ls. ltype l = event_type ev \<and> lcallback l = fst p)"
proof (induction ls arbitrary: s)
  case Nil
  then show ?case by simp
next
  case (Cons l ls)
  then show ?case by (auto split: if_splits)
qed

lemma calls_of_none:
  assumes "\<forall>l\<in>set ls. ltype l = event_type ev \<longrightarrow> lcallback l \<noteq> c"
  shows "calls_of c (notified call tgt ev ls s) = []"
proof -
  have "\<forall>p\<in>set (notified call tgt ev ls s). fst p \<noteq> c"
    using assms notified_from_snapshot [where call = call and tgt = tgt and ev = ev and ls = ls and s = s]
    by blast
  then show ?thesis by (simp add: calls_of_def filter_empty_conv)
qed




section \<open>A listener that does not call set\<close>

lemma quiet_run_cmd:
  assumes "\<not> calls_set x"
  shows "overflow (run_cmd call c x w) = overflow w"
    and "l \<in> set (listener_list (events w)) \<Longrightarrow> x \<noteq> CallUnsubscribe (lcallback l) \<Longrightarrow>
         l \<in> set (listener_list (events (run_cmd call c x w)))"
    and "\<exists>n. trace (run_cmd call c x w) = trace w @ replicate n (Got c (value w))"
    and "value (run_cmd call c x w) = value w"
proof -
  show "overflow (run_cmd call c x w) = overflow w"
    using assms by (cases x) (simp_all add: calls_set_def subscribe_def unsubscribe_def)
  show "l \<in> set (listener_list (events w)) \<Longrightarrow> x \<noteq> CallUnsubscribe (lcallback l) \<Longrightarrow>
         l \<in> set (listener_list (events (run_cmd call c x w)))"
    using assms
    by (cases x)
       (auto simp: calls_set_def subscribe_def unsubscribe_def addEventListener_def
          removeEventListener_def matches_def intro: remove_first_keeps)
  show "value (run_cmd call c x w) = value w"
    using assms by (cases x) (simp_all add: calls_set_def subscribe_def unsubscribe_def)
  show "\<exists>n. trace (run_cmd call c x w) = trace w @ replicate n (Got c (value w))"
  proof (cases x)
    case CallGet
    have "trace (run_cmd call c CallGet w) = trace w @ replicate 1 (Got c (value w))"
      by (simp add: get_def)
    with CallGet show ?thesis by blast
  next
    case (CallSet v)
    with assms show ?thesis by (simp add: calls_set_def)
  next
    case (CallSubscribe d)
    have "trace (run_cmd call c (CallSubscribe d) w) = trace w @ replicate 0 (Got c (value w))"
      by (simp add: subscribe_def)
    with CallSubscribe show ?thesis by blast
  next
    case (CallUnsubscribe d)
    have "trace (run_cmd call c (CallUnsubscribe d) w) = trace w @ replicate 0 (Got c (value w))"
      by (simp add: unsubscribe_def)
    with CallUnsubscribe show ?thesis by blast
  next
    case StopImmediatePropagation
    have "trace (run_cmd call c StopImmediatePropagation w) = trace w @ replicate 0 (Got c (value w))"
      by simp
    with StopImmediatePropagation show ?thesis by blast
  qed
qed


lemma value_quiet_fold:
  "\<not> list_ex calls_set xs \<Longrightarrow> value (fold (run_cmd call c) xs w) = value w"
  by (induction xs arbitrary: w) (simp_all add: quiet_run_cmd(4))


lemma trace_quiet_fold:
  "\<not> list_ex calls_set xs \<Longrightarrow>
   \<exists>n. trace (fold (run_cmd call c) xs w) = trace w @ replicate n (Got c (value w))"
proof (induction xs arbitrary: w)
  case Nil
  show ?case by simp
next
  case (Cons x xs)
  have x: "\<not> calls_set x" and xs: "\<not> list_ex calls_set xs" using Cons.prems by simp_all
  obtain n where n: "trace (run_cmd call c x w) = trace w @ replicate n (Got c (value w))"
    using quiet_run_cmd(3) [OF x] by blast
  obtain m where "trace (fold (run_cmd call c) xs (run_cmd call c x w)) =
      trace (run_cmd call c x w) @ replicate m (Got c (value (run_cmd call c x w)))"
    using Cons.IH [OF xs] by blast
  then have "trace (fold (run_cmd call c) (x # xs) w) = trace w @ replicate (n + m) (Got c (value w))"
    using n quiet_run_cmd(4) [OF x] by (simp add: replicate_add)
  then show ?case by blast
qed



lemma value_quiet_invoke:
  "\<not> list_ex calls_set (B k) \<Longrightarrow> value (snd (invoke depth B k ev w)) = value w"
  by (cases depth) (simp_all add: value_quiet_fold)


lemma trace_quiet_invoke:
  assumes "\<not> list_ex calls_set (B k)"
  shows "\<exists>n. trace (snd (invoke depth B k ev w)) = trace w @ replicate n (Got k (value w))"
proof (cases depth)
  case 0
  have "trace (snd (invoke 0 B k ev w)) = trace w @ replicate 0 (Got k (value w))" by simp
  with 0 show ?thesis by blast
next
  case (Suc d)
  then show ?thesis using trace_quiet_fold [OF assms] by simp
qed

section \<open>One call of set\<close>

lemma unregistered_not_notified:
  assumes "\<not> registered c w"
  shows "calls_of c (pass depth B v w) = []"
  unfolding pass_def
proof (rule calls_of_none)
  show "\<forall>l\<in>set (listener_list (events w)). ltype l = event_type (Event ''change'') \<longrightarrow> lcallback l \<noteq> c"
    using assms by (auto simp: registered_def list_ex_iff matches_def)
qed



lemma gots_append: "gots c (s @ t) = gots c s @ gots c t"
  by (induction c s rule: gots.induct) simp_all

lemma gots_replicate: "set (gots c (replicate n (Got k x))) \<subseteq> {x}"
  by (induction n) auto

lemma only_gets_refl: "only_gets s s"
  by (simp add: only_gets_def)

lemma only_gets_trans: "only_gets a b \<Longrightarrow> only_gets b c \<Longrightarrow> only_gets a c"
  unfolding only_gets_def
proof (elim conjE exE)
  fix s t
  assume a: "value b = value a" "value c = value b" "trace b = trace a @ s" "trace c = trace b @ t"
    "\<forall>c. set (gots c s) \<subseteq> {value a}" "\<forall>c. set (gots c t) \<subseteq> {value b}"
  then have "trace c = trace a @ (s @ t) \<and> (\<forall>c. set (gots c (s @ t)) \<subseteq> {value a})"
    by (simp add: gots_append)
  then show "value c = value a \<and> (\<exists>t. trace c = trace a @ t \<and> (\<forall>c. set (gots c t) \<subseteq> {value a}))"
    using a(1,2) by metis
qed

lemma no_reentry_gots:
  assumes "no_reentry B w"
  shows "set (gots c (pass_trace depth B v w)) \<subseteq> {v}"
proof -
  have "only_gets (w\<lparr>value := v\<rparr>)
      (inner_invoke (invoke depth B) events (Event ''change'') (listener_list (events w))
         (w\<lparr>value := v\<rparr>))"
  proof (rule inner_invoke_rel [where R = only_gets])
    fix l and s :: "'a world"
    assume "l \<in> set (listener_list (events w))" "ltype l = event_type (Event ''change'')"
    then have q: "\<not> list_ex calls_set (B (lcallback l))"
      using assms by (simp add: no_reentry_def list_all_iff)
    obtain n where "trace (snd (invoke depth B (lcallback l) (Event ''change'') s)) =
        trace s @ replicate n (Got (lcallback l) (value s))"
      using trace_quiet_invoke [where B = B and k = "lcallback l", OF q] by blast
    then show "only_gets s (snd (invoke depth B (lcallback l) (Event ''change'') s))"
      unfolding only_gets_def
      using value_quiet_invoke [where B = B and k = "lcallback l", OF q] gots_replicate by metis
  qed (auto intro: only_gets_refl only_gets_trans)
  then obtain t where t: "trace (set_atom (invoke depth B) v w) = trace w @ t"
      and g: "\<forall>c. set (gots c t) \<subseteq> {v}"
    by (auto simp: only_gets_def set_atom_def dispatchEvent_def)
  have "pass_trace depth B v w = t" using t by (simp add: pass_trace_def since_def)
  then show ?thesis using g by blast
qed

lemma not_registered_unsubscribe: "wf_target (events w) \<Longrightarrow> \<not> registered c (unsubscribe c w)"
  by (simp add: registered_def unsubscribe_def removeEventListener_def wf_target_def
      remove_first_matches_gone)

lemma unsubscribe_unregistered: "\<not> registered c w \<Longrightarrow> unsubscribe c w = w"
  by (simp add: registered_def unsubscribe_def removeEventListener_def remove_first_id)





lemma quiet_set_atom:
  assumes "\<forall>c. \<not> list_ex calls_set (B c)"
  shows "get (set_atom (invoke depth B) v w) = v"
proof -
  have "same_value (w\<lparr>value := v\<rparr>)
      (inner_invoke (invoke depth B) events (Event ''change'') (listener_list (events w))
         (w\<lparr>value := v\<rparr>))"
    by (rule inner_invoke_rel [where R = same_value])
       (simp_all add: same_value_def value_quiet_invoke assms)
  then show ?thesis by (simp add: same_value_def set_atom_def dispatchEvent_def get_def)
qed

lemma quiet_sets:
  assumes "\<forall>c. \<not> list_ex calls_set (B c)"
  shows "get (run_calls depth B (map Set (vs @ [vn])) w) = vn"
  by (simp add: run_calls_def quiet_set_atom [OF assms])

lemmas atom_defs = run_calls_def observed_def createAtom_def new_EventTarget_def subscribe_def
  unsubscribe_def addEventListener_def removeEventListener_def matches_def registered_def
  set_atom_def dispatchEvent_def get_def pass_def pass_trace_def since_def calls_of_def
  wf_target_def key_def undisturbed_def no_reentry_def calls_set_def

section \<open>The claims about the atom\<close>

text \<open>
  C1. After any sequence of calls of the atom's methods, including the calls of \<^verbatim>\<open>set\<close>
  that listeners make from inside a notification, \<^verbatim>\<open>get()\<close> returns the argument of the
  latest call of \<^verbatim>\<open>set\<close> (the value the atom had before, when there was none), and every
  \<^verbatim>\<open>get()\<close> made on the way, by whichever listener, returned the argument of the latest
  call of \<^verbatim>\<open>set\<close> before it: \<^verbatim>\<open>get\<close> reads the variable that \<^verbatim>\<open>set\<close> assigns and keeps no
  copy. In particular, when no listener calls \<^verbatim>\<open>set\<close>, after \<^verbatim>\<open>set(v1), ..., set(vn)\<close> it
  returns \<^verbatim>\<open>vn\<close>.
\<close>

theorem get_returns_latest_set:
  "get (run_calls depth B cs w) = replay (get w) (since w (run_calls depth B cs w)) \<and>
   gets_current (get w) (since w (run_calls depth B cs w)) \<and>
   ((\<forall>c. \<not> list_ex calls_set (B c)) \<longrightarrow> get (run_calls depth B (map Set (vs @ [vn])) w) = vn)"
  using follows_run_calls [where w = w and depth = depth and B = B and cs = cs]
    quiet_sets [where B = B and depth = depth and vs = vs and vn = vn and w = w]
  by (auto simp: follows_def since_def get_def)

text \<open>
  C1, at a new atom that holds 0 with two listeners, the first of which unsubscribes
  itself and calls \<^verbatim>\<open>set(9)\<close>: after \<^verbatim>\<open>set(5)\<close> the atom holds 9, the argument of the latest
  call of \<^verbatim>\<open>set\<close>; and with a listener that only calls \<^verbatim>\<open>get()\<close>, after \<^verbatim>\<open>set(1), set(2),
  set(3)\<close> it holds 3.
\<close>

theorem get_returns_latest_set_witness:
  "since (observed (createAtom (0::int) new_EventTarget))
     (run_calls (Suc (Suc 0)) (\<lambda>c. if c = 1 then [CallUnsubscribe 1, CallGet, CallSet 9] else [CallGet])
        [Subscribe 1, Subscribe 2, Set 5] (observed (createAtom (0::int) new_EventTarget))) =
     [SetCalled 5, Got 1 5, SetCalled 9, Got 2 9, Got 2 9] \<and>
   get (run_calls (Suc (Suc 0)) (\<lambda>c. if c = 1 then [CallUnsubscribe 1, CallGet, CallSet 9] else [CallGet])
        [Subscribe 1, Subscribe 2, Set 5] (observed (createAtom (0::int) new_EventTarget))) = 9 \<and>
   (\<forall>c. \<not> list_ex calls_set ([CallGet] :: int cmd list)) \<and>
   get (run_calls (Suc 0) (\<lambda>c. [CallGet]) (map Set ([1, 2] @ [3]))
        (subscribe 1 (observed (createAtom (0::int) new_EventTarget)))) = 3"
proof -
  let ?B = "\<lambda>c::nat. if c = 1 then [CallUnsubscribe 1, CallGet, CallSet (9::int)] else [CallGet]"
  let ?w = "observed (createAtom (0::int) new_EventTarget)"
  have t: "since ?w (run_calls (Suc (Suc 0)) ?B [Subscribe 1, Subscribe 2, Set 5] ?w) =
     [SetCalled 5, Got 1 5, SetCalled 9, Got 2 9, Got 2 9]"
    by (simp add: atom_defs)
  have h: "\<forall>c::nat. \<not> list_ex calls_set ([CallGet] :: int cmd list)"
    by (simp add: calls_set_def)
  show ?thesis
    using t h
      get_returns_latest_set [of "Suc (Suc 0)" ?B "[Subscribe 1, Subscribe 2, Set 5]" ?w]
      get_returns_latest_set [of "Suc 0" "\<lambda>c. [CallGet]" "[]" "subscribe 1 ?w" "[1, 2]" 3]
    by (simp add: get_def observed_def createAtom_def)
qed

text \<open>
  C2 as stated fails. Listeners 1 and 2 are registered, in this order, on an atom that
  holds 0; listener 1 unsubscribes itself and calls \<^verbatim>\<open>set(9)\<close>, listener 2 calls
  \<^verbatim>\<open>get()\<close>. The call \<^verbatim>\<open>set(5)\<close> notifies both, and listener 2 gets 9, not 5 (once in the
  notification of \<^verbatim>\<open>set(9)\<close> and once in that of \<^verbatim>\<open>set(5)\<close>).
\<close>

theorem later_listener_gets_reentrant_value:
  "pass (Suc (Suc 0)) (\<lambda>c. if c = 1 then [CallUnsubscribe 1, CallSet 9] else [CallGet]) 5
     (run_calls 0 (\<lambda>c. []) [Subscribe 1, Subscribe 2] (observed (createAtom (0::int) new_EventTarget))) =
     [(1, [Event ''change'']), (2, [Event ''change''])] \<and>
   gots 2 (pass_trace (Suc (Suc 0)) (\<lambda>c. if c = 1 then [CallUnsubscribe 1, CallSet 9] else [CallGet]) 5
     (run_calls 0 (\<lambda>c. []) [Subscribe 1, Subscribe 2] (observed (createAtom (0::int) new_EventTarget)))) =
     [9, 9]"
  by (simp add: atom_defs)

text \<open>
  C2, amended. \<^verbatim>\<open>set(v)\<close> assigns the value before it dispatches the event: every
  \<^verbatim>\<open>get()\<close> that a listener makes during the call returns the argument of the latest call
  of \<^verbatim>\<open>set\<close>, which is \<open>v\<close> until a listener calls \<^verbatim>\<open>set\<close> again; when no listener does,
  every listener gets \<open>v\<close>.
\<close>

theorem get_in_listener_returns_latest_set:
  "gets_current v (pass_trace depth B v w) \<and>
   (no_reentry B w \<longrightarrow> set (gots c (pass_trace depth B v w)) \<subseteq> {v})"
  using pass_trace_current [where depth = depth and B = B and v = v and w = w]
    no_reentry_gots [where B = B and w = w and c = c and depth = depth and v = v]
  by blast

text \<open>
  C2, amended, at an atom that holds 0 with one listener that calls \<^verbatim>\<open>get()\<close>: during
  \<^verbatim>\<open>set(5)\<close> the listener gets 5.
\<close>

theorem get_in_listener_returns_latest_set_witness:
  "no_reentry (\<lambda>c. [CallGet])
     (run_calls 0 (\<lambda>c. []) [Subscribe 1] (observed (createAtom (0::int) new_EventTarget))) \<and>
   gots 1 (pass_trace (Suc 0) (\<lambda>c. [CallGet]) 5
     (run_calls 0 (\<lambda>c. []) [Subscribe 1] (observed (createAtom (0::int) new_EventTarget)))) = [5] \<and>
   set (gots 1 (pass_trace (Suc 0) (\<lambda>c. [CallGet]) 5
     (run_calls 0 (\<lambda>c. []) [Subscribe 1] (observed (createAtom (0::int) new_EventTarget))))) \<subseteq> {5} \<and>
   gets_current 5 (pass_trace (Suc 0) (\<lambda>c. [CallGet]) 5
     (run_calls 0 (\<lambda>c. []) [Subscribe 1] (observed (createAtom (0::int) new_EventTarget))))"
proof -
  let ?w = "run_calls 0 (\<lambda>c. []) [Subscribe 1] (observed (createAtom (0::int) new_EventTarget))"
  have h: "no_reentry (\<lambda>c. [CallGet :: int cmd]) ?w" by (simp add: atom_defs)
  have g: "gots 1 (pass_trace (Suc 0) (\<lambda>c. [CallGet]) 5 ?w) = [5]" by (simp add: atom_defs)
  show ?thesis
    using h g get_in_listener_returns_latest_set [of 5 "Suc 0" "\<lambda>c. [CallGet]" ?w 1] by simp
qed




text \<open>
  C4. After the unsubscribe function of \<open>c\<close> has run, the pass of a call of \<^verbatim>\<open>set\<close> does
  not call \<open>c\<close>; running the unsubscribe function a second time leaves the atom as it
  is.
\<close>

theorem unsubscribe_stops_notification:
  assumes "wf_target (events w)"
  shows "calls_of c (pass depth B v (unsubscribe c w)) = [] \<and>
         unsubscribe c (unsubscribe c w) = unsubscribe c w"
  using assms
  by (simp add: not_registered_unsubscribe unregistered_not_notified unsubscribe_unregistered)

text \<open>
  C4, at an atom with the listeners 1 and 2: \<^verbatim>\<open>set(5)\<close> calls listener 1 before it
  is unsubscribed and not after.
\<close>

theorem unsubscribe_stops_notification_witness:
  "wf_target (events (run_calls 0 (\<lambda>c. []) [Subscribe 1, Subscribe 2]
       (observed (createAtom (0::int) new_EventTarget)))) \<and>
   pass (Suc 0) (\<lambda>c. [CallGet]) 5
     (run_calls 0 (\<lambda>c. []) [Subscribe 1, Subscribe 2]
       (observed (createAtom (0::int) new_EventTarget))) =
     [(1, [Event ''change'']), (2, [Event ''change''])] \<and>
   pass (Suc 0) (\<lambda>c. [CallGet]) 5 (unsubscribe 1
     (run_calls 0 (\<lambda>c. []) [Subscribe 1, Subscribe 2]
       (observed (createAtom (0::int) new_EventTarget)))) = [(2, [Event ''change''])] \<and>
   calls_of 1 (pass (Suc 0) (\<lambda>c. [CallGet]) 5 (unsubscribe 1
     (run_calls 0 (\<lambda>c. []) [Subscribe 1, Subscribe 2]
       (observed (createAtom (0::int) new_EventTarget))))) = [] \<and>
   unsubscribe 1 (unsubscribe 1
     (run_calls 0 (\<lambda>c. []) [Subscribe 1, Subscribe 2]
       (observed (createAtom (0::int) new_EventTarget)))) =
   unsubscribe 1
     (run_calls 0 (\<lambda>c. []) [Subscribe 1, Subscribe 2]
       (observed (createAtom (0::int) new_EventTarget)))"
proof -
  let ?B = "\<lambda>c::nat. [CallGet :: int cmd]"
  let ?w = "run_calls 0 (\<lambda>c. []) [Subscribe 1, Subscribe 2] (observed (createAtom (0::int) new_EventTarget))"
  have h: "wf_target (events ?w)" by (simp add: atom_defs)
  have before: "pass (Suc 0) ?B 5 ?w = [(1, [Event ''change'']), (2, [Event ''change''])]"
    by (simp add: atom_defs)
  have after: "pass (Suc 0) ?B 5 (unsubscribe 1 ?w) = [(2, [Event ''change''])]"
    by (simp add: atom_defs)
  show ?thesis
    using h before after unsubscribe_stops_notification [OF h, of 1 "Suc 0" ?B 5] by simp
qed

text \<open>
  C5. A callback that is not registered when \<^verbatim>\<open>set\<close> is called is not called in the
  pass of that call, whatever the listeners do during the pass: the dispatch walks a
  copy of the list taken before the first listener runs, so a \<^verbatim>\<open>subscribe\<close> made by a
  listener adds nothing to the pass.
\<close>

theorem listener_added_in_pass_not_invoked:
  assumes "\<not> registered c w"
  shows "calls_of c (pass depth B v w) = []"
  using assms by (rule unregistered_not_notified)

text \<open>
  C5, at an atom whose only listener 1 subscribes the callback 2: the pass of the
  first \<^verbatim>\<open>set\<close> registers 2 and does not call it, the pass of the next one calls it.
\<close>

theorem listener_added_in_pass_not_invoked_witness:
  "\<not> registered 2 (run_calls 0 (\<lambda>c. []) [Subscribe 1]
       (observed (createAtom (0::int) new_EventTarget))) \<and>
   pass (Suc 0) (\<lambda>c. if c = 1 then [CallSubscribe 2] else []) 5
     (run_calls 0 (\<lambda>c. []) [Subscribe 1] (observed (createAtom (0::int) new_EventTarget))) =
     [(1, [Event ''change''])] \<and>
   calls_of 2 (pass (Suc 0) (\<lambda>c. if c = 1 then [CallSubscribe 2] else []) 5
     (run_calls 0 (\<lambda>c. []) [Subscribe 1] (observed (createAtom (0::int) new_EventTarget)))) = [] \<and>
   registered 2 (run_calls (Suc 0) (\<lambda>c. if c = 1 then [CallSubscribe 2] else []) [Subscribe 1, Set 5]
       (observed (createAtom (0::int) new_EventTarget))) \<and>
   pass (Suc 0) (\<lambda>c. if c = 1 then [CallSubscribe 2] else []) 6
     (run_calls (Suc 0) (\<lambda>c. if c = 1 then [CallSubscribe 2] else []) [Subscribe 1, Set 5]
       (observed (createAtom (0::int) new_EventTarget))) =
     [(1, [Event ''change'']), (2, [Event ''change''])]"
proof -
  let ?B = "\<lambda>c::nat. if c = 1 then [CallSubscribe 2 :: int cmd] else []"
  let ?w = "run_calls 0 (\<lambda>c. []) [Subscribe 1] (observed (createAtom (0::int) new_EventTarget))"
  have h: "\<not> registered 2 ?w" by (simp add: atom_defs)
  have p: "pass (Suc 0) ?B 5 ?w = [(1, [Event ''change''])]" by (simp add: atom_defs)
  have later: "registered 2 (run_calls (Suc 0) ?B [Subscribe 1, Set 5] (observed (createAtom (0::int) new_EventTarget))) \<and>
     pass (Suc 0) ?B 6 (run_calls (Suc 0) ?B [Subscribe 1, Set 5]
       (observed (createAtom (0::int) new_EventTarget))) =
     [(1, [Event ''change'']), (2, [Event ''change''])]"
    by (simp add: atom_defs)
  show ?thesis
    using h p later listener_added_in_pass_not_invoked [OF h, of "Suc 0" ?B 5] by simp
qed



section \<open>The shim: what a notification does\<close>

lemma shim_listener_goes_on: "\<not> fst (shim_listener c ev s)"
  by (simp add: shim_listener_def)

lemma inner_invoke_shim_Cons:
  "inner_invoke shim_listener events ev (l # ls) s =
     inner_invoke shim_listener events ev ls
       (if l \<in> set (listener_list (events s)) \<and> ltype l = event_type ev
        then snd (shim_listener (lcallback l) ev s) else s)"
  by (simp add: shim_listener_goes_on)

lemma shim_listener_frame:
  "events (snd (shim_listener c ev s)) = events s"
  "value (snd (shim_listener c ev s)) = value s"
  "closures (snd (shim_listener c ev s)) = closures s"
  "cleanup (snd (shim_listener c ev s)) = cleanup s"
  "next_closure (snd (shim_listener c ev s)) = next_closure s"
  by (simp_all add: shim_listener_def setSnapshot_def split: option.splits)

lemma inner_invoke_shim_frame:
  "events (inner_invoke shim_listener events ev ls s) = events s \<and>
   value (inner_invoke shim_listener events ev ls s) = value s \<and>
   closures (inner_invoke shim_listener events ev ls s) = closures s \<and>
   cleanup (inner_invoke shim_listener events ev ls s) = cleanup s \<and>
   next_closure (inner_invoke shim_listener events ev ls s) = next_closure s"
  by (induction ls arbitrary: s)
     (simp_all add: shim_listener_frame inner_invoke_shim_Cons del: inner_invoke.simps(2))

lemma set_atom_shim_frame:
  "events (set_atom shim_listener v s) = events s"
  "value (set_atom shim_listener v s) = v"
  "closures (set_atom shim_listener v s) = closures s"
  "cleanup (set_atom shim_listener v s) = cleanup s"
  "next_closure (set_atom shim_listener v s) = next_closure s"
  by (simp_all add: set_atom_def dispatchEvent_def inner_invoke_shim_frame)




subsection \<open>The element stays in sync\<close>

lemma subscribed_scheduled [simp]: "subscribed (s\<lparr>scheduled := x\<rparr>) = subscribed s"
  by (simp add: subscribed_def registered_def split: option.splits)













subsection \<open>One subscription\<close>

lemma fresh_callback_above: "l \<in> set ls \<Longrightarrow> lcallback l < fresh_callback ls"
  by (induction ls) auto

lemma page_inv_new: "wf_target (events a) \<Longrightarrow> page_inv (new_page a)"
  by (auto simp: page_inv_def new_page_def active_subscriptions_def list_all_iff
      fresh_callback_above)

lemma active_le_one:
  assumes "page_inv s"
  shows "length (active_subscriptions s) \<le> 1"
proof -
  have d: "distinct (map key (active_subscriptions s))"
    using assms by (simp add: page_inv_def wf_target_def active_subscriptions_def distinct_map_filter)
  have same: "\<forall>l\<in>set (active_subscriptions s). \<forall>k\<in>set (active_subscriptions s). key l = key k"
  proof (intro ballI)
    fix l k assume "l \<in> set (active_subscriptions s)" "k \<in> set (active_subscriptions s)"
    note lk = this
    have c: "\<forall>j\<in>set (active_subscriptions s). cleanup s = Some (lcallback j)"
      using assms by (simp add: page_inv_def list_all_iff)
    have "cleanup s = Some (lcallback l)" "cleanup s = Some (lcallback k)"
      using c lk by blast+
    moreover have "ltype l = ''change''" "ltype k = ''change''"
      using lk by (simp_all add: active_subscriptions_def)
    ultimately show "key l = key k" by (simp add: key_def)
  qed
  show ?thesis
  proof (cases "active_subscriptions s")
    case Nil
    then show ?thesis by simp
  next
    case (Cons l ls)
    show ?thesis
    proof (cases ls)
      case Nil
      with Cons show ?thesis by simp
    next
      case (Cons k ks)
      with \<open>active_subscriptions s = l # ls\<close> d same show ?thesis by auto
    qed
  qed
qed

lemma page_inv_render: "page_inv s \<Longrightarrow> page_inv (snd (useSyncExternalStoreShim ids s))"
  by (auto simp: page_inv_def useSyncExternalStoreShim_def useState_def useEffect_def
      active_subscriptions_def split: option.splits)

lemma page_inv_set: "page_inv s \<Longrightarrow> page_inv (set_atom shim_listener v s)"
  by (simp add: page_inv_def set_atom_shim_frame active_subscriptions_def)

lemma active_run_cleanup:
  assumes "page_inv s"
  shows "active_subscriptions (run_cleanup s) = []"
proof (cases "cleanup s")
  case None
  then show ?thesis
    using assms by (cases "active_subscriptions s") (auto simp: run_cleanup_def page_inv_def)
next
  case (Some cb)
  have gone: "\<not> list_ex (matches ''change'' cb) (remove_first (matches ''change'' cb) (listener_list (events s)))"
    using assms by (intro remove_first_matches_gone) (simp add: page_inv_def wf_target_def)
  have "\<forall>l\<in>set (listener_list (events s)). ltype l = ''change'' \<and> lcallback l \<in> set (closures s)
          \<longrightarrow> lcallback l = cb"
    using assms Some by (auto simp: page_inv_def list_all_iff active_subscriptions_def)
  then have "\<forall>l\<in>set (remove_first (matches ''change'' cb) (listener_list (events s))).
          \<not> (ltype l = ''change'' \<and> lcallback l \<in> set (closures s))"
    using gone set_remove_first_subset [of "matches ''change'' cb" "listener_list (events s)"]
    by (auto simp: list_ex_iff matches_def)
  then show ?thesis
    using Some
    by (simp add: run_cleanup_def active_subscriptions_def unsubscribe_def removeEventListener_def
        filter_empty_conv)
qed

lemma page_inv_run_cleanup:
  assumes "page_inv s"
  shows "page_inv (run_cleanup s)"
proof -
  have a: "active_subscriptions (run_cleanup s) = []" using assms by (rule active_run_cleanup)
  have "wf_target (events (run_cleanup s))"
    using assms
    by (auto simp: page_inv_def run_cleanup_def unsubscribe_def wf_removeEventListener
        split: option.splits)
  moreover have "list_all (\<lambda>l. lcallback l < next_closure (run_cleanup s)) (listener_list (events (run_cleanup s)))"
    using assms set_remove_first_subset
    by (fastforce simp: page_inv_def run_cleanup_def unsubscribe_def removeEventListener_def
        list_all_iff split: option.splits)
  moreover have "list_all (\<lambda>c. c < next_closure (run_cleanup s)) (closures (run_cleanup s))"
    using assms
    by (auto simp: page_inv_def run_cleanup_def unsubscribe_def split: option.splits)
  ultimately show ?thesis using a by (simp add: page_inv_def)
qed

lemma page_inv_run_effect:
  assumes "page_inv s" "active_subscriptions s = []"
  shows "page_inv (run_effect ds s)"
proof -
  let ?cb = "next_closure s"
  have notin: "\<not> list_ex (matches ''change'' ?cb) (listener_list (events s))"
    using assms(1) by (auto simp: page_inv_def list_all_iff list_ex_iff matches_def)
  have none: "\<forall>l\<in>set (listener_list (events s)). \<not> (ltype l = ''change'' \<and> lcallback l \<in> set (closures s))"
    using assms(2) by (simp add: active_subscriptions_def filter_empty_conv)
  have old: "\<forall>l\<in>set (listener_list (events s)). lcallback l < ?cb"
    using assms(1) by (simp add: page_inv_def list_all_iff)
  have ev: "listener_list (events (run_effect ds s)) =
      listener_list (events s) @ [\<lparr>ltype = ''change'', lcallback = ?cb, ltoken = next_token (events s)\<rparr>]"
    using notin by (simp add: run_effect_def Let_def subscribe_def addEventListener_def)
  have wf: "wf_target (events (run_effect ds s))"
    using assms(1) by (simp add: run_effect_def Let_def subscribe_def wf_addEventListener page_inv_def)
  have act: "active_subscriptions (run_effect ds s) =
      [\<lparr>ltype = ''change'', lcallback = ?cb, ltoken = next_token (events s)\<rparr>]"
    unfolding active_subscriptions_def ev
    using none old by (auto simp: run_effect_def Let_def subscribe_def filter_empty_conv)
  have cl: "cleanup (run_effect ds s) = Some ?cb" "next_closure (run_effect ds s) = Suc ?cb"
      "closures (run_effect ds s) = ?cb # closures s"
    by (simp_all add: run_effect_def Let_def subscribe_def)
  show ?thesis
    unfolding page_inv_def act cl ev
    using wf old assms(1) by (auto simp: page_inv_def list_all_iff less_Suc_eq)
qed

lemma page_inv_scheduled: "page_inv s \<Longrightarrow> page_inv (s\<lparr>scheduled := x\<rparr>)"
  by (simp add: page_inv_def active_subscriptions_def)

lemma page_inv_commit: "page_inv s \<Longrightarrow> page_inv (commit s)"
  by (auto simp: commit_def page_inv_scheduled page_inv_run_effect page_inv_run_cleanup
      active_run_cleanup split: option.splits)

lemma page_inv_unmount: "page_inv s \<Longrightarrow> page_inv (unmount s)"
proof -
  assume "page_inv s"
  then have "page_inv (run_cleanup s)" by (rule page_inv_run_cleanup)
  then show ?thesis by (simp add: unmount_def page_inv_def active_subscriptions_def)
qed

lemma page_inv_step: "page_inv s \<Longrightarrow> page_inv (step st s)"
  by (cases st) (simp_all add: page_inv_render page_inv_commit page_inv_set page_inv_unmount)

lemma page_inv_run_steps: "page_inv s \<Longrightarrow> page_inv (run_steps steps s)"
  unfolding run_steps_def by (induction steps arbitrary: s) (simp_all add: page_inv_step)

lemma active_unmount: "page_inv s \<Longrightarrow> active_subscriptions (unmount s) = []"
  using active_run_cleanup [of s] by (simp add: unmount_def active_subscriptions_def)


subsection \<open>Notifications and re-renders\<close>


lemma notified_by_shim_listener [simp]:
  "notified_by ev (snd (shim_listener c e s)) = notified_by ev s"
  by (rule ext) (simp add: notified_by_def shim_listener_frame)






lemmas page_defs = mounted_def commit_def useSyncExternalStoreShim_def useState_def useEffect_def
      new_page_def createAtom_def new_EventTarget_def run_cleanup_def run_effect_def subscribe_def
      unsubscribe_def removeEventListener_def matches_def unmount_def run_steps_def
      addEventListener_def set_atom_def dispatchEvent_def shim_listener_def setSnapshot_def get_def
      active_subscriptions_def useSyncExternalStore_native_def

section \<open>The claims about the shim\<close>






text \<open>
  C9. Whatever renders, commits, calls of \<^verbatim>\<open>set\<close> and unmounts happen, at most one
  listener of the shim is registered on the atom. The cleanup function that the host
  calls before it runs the effect again, and at unmount, leaves none.
\<close>

theorem shim_holds_one_subscription:
  assumes "wf_target (events a)"
  shows "length (active_subscriptions (run_steps steps (new_page a))) \<le> 1 \<and>
         active_subscriptions (run_cleanup (run_steps steps (new_page a))) = [] \<and>
         active_subscriptions (unmount (run_steps steps (new_page a))) = []"
proof -
  have "page_inv (run_steps steps (new_page a))"
    using assms by (intro page_inv_run_steps page_inv_new)
  then show ?thesis using active_le_one [of "run_steps steps (new_page a)"]
    by (simp add: active_run_cleanup active_unmount)
qed

text \<open>
  C9, at an atom with a listener of someone else: after a mount, a \<^verbatim>\<open>set\<close> and a render
  with a new \<^verbatim>\<open>subscribe\<close> function, the one listener of the shim is that of the second
  run of the effect.
\<close>

theorem shim_holds_one_subscription_witness:
  "wf_target (events (subscribe 5 (createAtom (10::int) new_EventTarget))) \<and>
   map lcallback (active_subscriptions
     (run_steps [Render 1 1, Commit, AtomSet 11, Render 2 1, Commit]
        (new_page (subscribe 5 (createAtom (10::int) new_EventTarget))))) = [7] \<and>
   length (active_subscriptions
     (run_steps [Render 1 1, Commit, AtomSet 11, Render 2 1, Commit]
        (new_page (subscribe 5 (createAtom (10::int) new_EventTarget))))) \<le> 1 \<and>
   active_subscriptions (run_cleanup
     (run_steps [Render 1 1, Commit, AtomSet 11, Render 2 1, Commit]
        (new_page (subscribe 5 (createAtom (10::int) new_EventTarget))))) = [] \<and>
   active_subscriptions (unmount
     (run_steps [Render 1 1, Commit, AtomSet 11, Render 2 1, Commit]
        (new_page (subscribe 5 (createAtom (10::int) new_EventTarget))))) = []"
proof -
  have h: "wf_target (events (subscribe 5 (createAtom (10::int) new_EventTarget)))"
    by (simp add: wf_target_def subscribe_def createAtom_def new_EventTarget_def
        addEventListener_def key_def)
  have c: "map lcallback (active_subscriptions
     (run_steps [Render 1 1, Commit, AtomSet 11, Render 2 1, Commit]
        (new_page (subscribe 5 (createAtom (10::int) new_EventTarget))))) = [7]"
    by (simp add: page_defs)
  show ?thesis
    using h c shim_holds_one_subscription [OF h, of "[Render 1 1, Commit, AtomSet 11, Render 2 1, Commit]"]
    by simp
qed

section \<open>The delayed value\<close>

lemma fire_frame: "now (fire x L) = now L" "timers (fire x L) = timers L"
  "length (promises (fire x L)) = length (promises L)"
  by (simp_all add: fire_def resolve_def)

lemma fold_fire_frame: "now (fold fire xs L) = now L \<and> timers (fold fire xs L) = timers L \<and>
  length (promises (fold fire xs L)) = length (promises L)"
  by (induction xs arbitrary: L) (simp_all add: fire_frame)

lemma fire_other: "target x \<noteq> p \<Longrightarrow> promises (fire x L) ! p = promises L ! p"
  by (simp add: fire_def resolve_def)

lemma fire_settled: "promises L ! p \<noteq> Pending \<Longrightarrow> promises (fire x L) ! p = promises L ! p"
  by (cases "target x = p") (simp_all add: fire_def resolve_def)

lemma fire_pending:
  "promises L ! p = Pending \<Longrightarrow> p < length (promises L) \<Longrightarrow> target x = p \<Longrightarrow>
   promises (fire x L) ! p = Fulfilled (arg x)"
  by (simp add: fire_def resolve_def)

lemma fold_fire_settled:
  "promises L ! p \<noteq> Pending \<Longrightarrow> promises (fold fire xs L) ! p = promises L ! p"
  by (induction xs arbitrary: L) (simp_all add: fire_settled)

lemma fold_fire_pending:
  "promises L ! p = Pending \<Longrightarrow> p < length (promises L) \<Longrightarrow>
   \<forall>x\<in>set xs. target x = p \<longrightarrow> arg x = v \<Longrightarrow>
   promises (fold fire xs L) ! p = (if \<exists>x\<in>set xs. target x = p then Fulfilled v else Pending)"
proof (induction xs arbitrary: L)
  case Nil
  then show ?case by simp
next
  case (Cons x xs)
  show ?case
  proof (cases "target x = p")
    case True
    then have "promises (fire x L) ! p = Fulfilled v"
      using Cons.prems by (simp add: fire_pending)
    then have "promises (fold fire xs (fire x L)) ! p = Fulfilled v"
      by (simp add: fold_fire_settled)
    with True show ?thesis by simp
  next
    case False
    then have "promises (fire x L) ! p = Pending" using Cons.prems(1) by (simp add: fire_other)
    moreover have "p < length (promises (fire x L))" using Cons.prems(2) by (simp add: fire_frame)
    ultimately have "promises (fold fire xs (fire x L)) ! p =
        (if \<exists>x\<in>set xs. target x = p then Fulfilled v else Pending)"
      using Cons.prems(3) by (intro Cons.IH) auto
    with False show ?thesis by simp
  qed
qed

lemma wf_loop_delayed: "wf_loop L \<Longrightarrow> wf_loop (snd (delayed w L))"
  by (auto simp: wf_loop_def delayed_def new_Promise_def setTimeout_def Let_def list_all_iff)

lemma wf_loop_elapse: "wf_loop L \<Longrightarrow> wf_loop (elapse d L)"
  by (auto simp: wf_loop_def elapse_def Let_def fold_fire_frame list_all_iff)

lemma tracks_start: "wf_loop L \<Longrightarrow> tracks (fst (delayed v L)) v (now L) 0 (snd (delayed v L))"
  by (auto simp: tracks_def wf_loop_def delayed_def new_Promise_def setTimeout_def Let_def
      list_all_iff nth_append)

lemma tracks_delayed:
  assumes "wf_loop L" "tracks p v t0 e L"
  shows "tracks p v t0 e (snd (delayed w L))"
proof -
  have p: "p < length (promises L)" using assms(2) by (simp add: tracks_def)
  have "\<forall>x\<in>set (timers L). target x < length (promises L)"
    using assms(1) by (simp add: wf_loop_def list_all_iff)
  then show ?thesis
    using assms(2) p
    by (auto simp: tracks_def delayed_def new_Promise_def setTimeout_def Let_def nth_append)
qed

lemma tracks_elapse:
  assumes "tracks p v t0 e L"
  shows "tracks p v t0 (e + d) (elapse d L)"
proof -
  let ?t = "now L + d"
  let ?L = "L\<lparr>now := ?t, timers := filter (\<lambda>x. \<not> due x \<le> ?t) (timers L)\<rparr>"
  let ?xs = "filter (\<lambda>x. due x \<le> ?t) (timers L)"
  have el: "elapse d L = fold fire ?xs ?L" by (simp add: elapse_def Let_def)
  have p: "p < length (promises L)" and n: "now L = t0 + e"
    using assms by (simp_all add: tracks_def)
  show ?thesis
  proof (cases "e < 1000")
    case False
    then have "promises ?L ! p = Fulfilled v" using assms by (simp add: tracks_def)
    then have "promises (fold fire ?xs ?L) ! p = Fulfilled v" by (simp add: fold_fire_settled)
    with False p n show ?thesis by (simp add: tracks_def el fold_fire_frame)
  next
    case True
    then have pend: "promises ?L ! p = Pending"
      and ex: "\<exists>x\<in>set (timers L). target x = p"
      and all: "\<forall>x\<in>set (timers L). target x = p \<longrightarrow> due x = t0 + 1000 \<and> arg x = v"
      using assms by (simp_all add: tracks_def)
    have st: "promises (fold fire ?xs ?L) ! p =
        (if \<exists>x\<in>set ?xs. target x = p then Fulfilled v else Pending)"
      using pend p all by (intro fold_fire_pending) auto
    show ?thesis
    proof (cases "e + d < 1000")
      case True
      then have "\<not> (\<exists>x\<in>set ?xs. target x = p)" using all n by auto
      moreover have "\<exists>x\<in>set (timers ?L). target x = p" using ex all n True by auto
      ultimately show ?thesis
        using True st p n all by (auto simp: tracks_def el fold_fire_frame)
    next
      case False
      then have "\<exists>x\<in>set ?xs. target x = p" using ex all n by auto
      then show ?thesis
        using False st p n by (simp add: tracks_def el fold_fire_frame)
    qed
  qed
qed

lemma tracks_fold:
  "wf_loop L \<Longrightarrow> tracks p v t0 e L \<Longrightarrow> tracks p v t0 (e + elapsed ts) (fold tick ts L)"
proof (induction ts arbitrary: L e)
  case Nil
  then show ?case by simp
next
  case (Cons a ts)
  show ?case
  proof (cases a)
    case (Elapse d)
    have "tracks p v t0 (e + d + elapsed ts) (fold tick ts (elapse d L))"
      using Cons.prems by (intro Cons.IH wf_loop_elapse tracks_elapse)
    with Elapse show ?thesis by (simp add: add.assoc)
  next
    case (Delayed w)
    have "tracks p v t0 (e + elapsed ts) (fold tick ts (snd (delayed w L)))"
      using Cons.prems by (intro Cons.IH wf_loop_delayed tracks_delayed)
    with Delayed show ?thesis by simp
  qed
qed

text \<open>
  C6 as stated fails: \<^verbatim>\<open>delayed\<close> takes the value only. The producer of the spec, asked
  for a delay of 500, has resolved after 500 milliseconds; the promise of \<^verbatim>\<open>delayed\<close> is
  still pending then.
\<close>

theorem delayed_has_no_delay_parameter:
  "state_of (fst (spec_produce (7::int) 500 new_loop)) (elapse 500 (snd (spec_produce 7 500 new_loop))) = Fulfilled 7 \<and>
   state_of (fst (delayed (7::int) new_loop)) (elapse 500 (snd (delayed 7 new_loop))) = Pending"
  by (simp add: state_of_def spec_produce_def delayed_def new_Promise_def setTimeout_def new_loop_def
      elapse_def fire_def resolve_def Let_def)

text \<open>
  C6, amended. \<^verbatim>\<open>delayed(value)\<close> is the producer of the spec at the fixed delay 1000.
  Whatever else happens on the loop, its promise is pending as long as less than 1000
  milliseconds have passed since the call, and fulfilled with \<open>value\<close> from then on: it
  resolves once, to \<open>value\<close>, and is never rejected.
\<close>

theorem delayed_resolves_after_1000:
  assumes "wf_loop L"
  shows "state_of (fst (delayed v L)) (fold tick ts (snd (delayed v L))) =
           (if elapsed ts < 1000 then Pending else Fulfilled v) \<and>
         delayed v L = spec_produce v 1000 L"
proof -
  have "tracks (fst (delayed v L)) v (now L) (0 + elapsed ts) (fold tick ts (snd (delayed v L)))"
    using assms by (intro tracks_fold wf_loop_delayed tracks_start)
  then show ?thesis by (auto simp: tracks_def state_of_def delayed_def spec_produce_def)
qed

text \<open>
  C6, amended, on a new loop: the promise of \<^verbatim>\<open>delayed(7)\<close> is pending after 999
  milliseconds and fulfilled with 7 after 1000, and stays so.
\<close>

theorem delayed_resolves_after_1000_witness:
  "wf_loop (new_loop :: int loop) \<and>
   state_of (fst (delayed (7::int) new_loop))
     (fold tick [Elapse 300, Delayed (2::int), Elapse 699] (snd (delayed (7::int) new_loop))) = Pending \<and>
   state_of (fst (delayed (7::int) new_loop))
     (fold tick [Elapse 300, Delayed (2::int), Elapse 699, Elapse 1, Elapse 5000] (snd (delayed (7::int) new_loop))) =
       Fulfilled 7"
proof -
  have h: "wf_loop (new_loop :: int loop)" by (simp add: wf_loop_def new_loop_def)
  show ?thesis
    using h
      delayed_resolves_after_1000 [OF h, of "7::int" "[Elapse 300, Delayed (2::int), Elapse 699]", THEN conjunct1]
      delayed_resolves_after_1000
        [OF h, of "7::int" "[Elapse 300, Delayed (2::int), Elapse 699, Elapse 1, Elapse 5000]", THEN conjunct1]
    by simp
qed

end
